theory Spec2Isabelle
  imports Complex_Main "HOL-Library.Sublist" "HOL-Library.Multiset" "HOL-Library.Monad_Syntax"
begin

section \<open>Data model\<close>

text \<open>
  The program (\<^verbatim>\<open>modded_cmthingy.py\<close>) passes its signal events around as Python dicts
  with fixed keys. Each kind of dict is a record here. Python numbers (the floats parsed
  from ffmpeg's output, the integer literals \<^verbatim>\<open>0\<close>, \<^verbatim>\<open>30\<close>, \<^verbatim>\<open>60\<close>) are idealised as
  \<^typ>\<open>real\<close>: comparison, addition, subtraction and halving are exact, and there is no NaN.
  The key \<^verbatim>\<open>end\<close> is a keyword of Isabelle and several dicts share key names, so the
  fields carry the dict's kind as a prefix.
\<close>

record black =
  black_start :: real
  black_end :: real
  black_center :: real

record silence =
  silence_start :: real
  silence_end :: real
  silence_center :: real
  silence_duration :: real

record scene =
  scene_timestamp :: real

datatype break_type = Black | Scene

datatype break_confidence = High | Medium

record break =
  timestamp :: real
  type :: break_type
  confidence :: break_confidence

section \<open>Candidate Cleaner: \<^verbatim>\<open>clean_black_spaces\<close>\<close>

text \<open>
  \<^verbatim>\<open>
  def clean_black_spaces(blacks, duration, start=20, end=10):
      return [
          b for b in blacks
          if b["start"] > start and b["end"] < duration - end
      ]
  \<close>
  The comprehension is a loop over \<^verbatim>\<open>blacks\<close> that appends the kept elements in order.
\<close>

primrec clean_black_spaces :: "black list \<Rightarrow> real \<Rightarrow> real \<Rightarrow> real \<Rightarrow> black list" where
  "clean_black_spaces [] duration start end' = []"
| "clean_black_spaces (b # blacks) duration start end' =
     (if black_start b > start \<and> black_end b < duration - end'
      then b # clean_black_spaces blacks duration start end'
      else clean_black_spaces blacks duration start end')"

text \<open>The call with the default margins \<^verbatim>\<open>start=20\<close>, \<^verbatim>\<open>end=10\<close>, as \<^verbatim>\<open>process_video\<close> makes it.\<close>

definition clean_black_spaces_default :: "black list \<Rightarrow> real \<Rightarrow> black list" where
  "clean_black_spaces_default blacks duration = clean_black_spaces blacks duration 20 10"

section \<open>Break Selector: \<^verbatim>\<open>find_optimal_breaks\<close>\<close>

text \<open>
  \<^verbatim>\<open>
  breaks = [{"timestamp": b["center"], "type": "black", "confidence": "high"} for b in blacks]
  \<close>
\<close>

definition seed_breaks :: "black list \<Rightarrow> break list" where
  "seed_breaks blacks =
     map (\<lambda>b. \<lparr>timestamp = black_center b, type = Black, confidence = High\<rparr>) blacks"

text \<open>
  \<^verbatim>\<open>
  gaps = []
  if filled:
      if filled[0]["timestamp"] > max_gap:
          gaps.append((0, filled[0]["timestamp"]))
      for i in range(len(filled) - 1):
          if filled[i+1]["timestamp"] - filled[i]["timestamp"] > max_gap:
              gaps.append((filled[i]["timestamp"], filled[i+1]["timestamp"]))
  else:
      gaps.append((0, duration))
  \<close>
  Every index read is in range: \<open>i + 1 < length filled\<close> for \<open>i < length filled - 1\<close>.
\<close>

definition find_gaps :: "real \<Rightarrow> break list \<Rightarrow> real \<Rightarrow> (real \<times> real) list" where
  "find_gaps duration filled max_gap =
     (if filled \<noteq> [] then
        (if timestamp (filled ! 0) > max_gap then [(0, timestamp (filled ! 0))] else []) @
        concat (map (\<lambda>i. if timestamp (filled ! (i + 1)) - timestamp (filled ! i) > max_gap
                         then [(timestamp (filled ! i), timestamp (filled ! (i + 1)))]
                         else [])
                    [0..<length filled - 1])
      else [(0, duration)])"

text \<open>
  \<^verbatim>\<open>
  candidates = [s for s in scenes if gstart + 30 < s["timestamp"] < gend - 30]
  \<close>
  The chained comparison is the conjunction of its two halves.
\<close>

definition candidates :: "scene list \<Rightarrow> real \<Rightarrow> real \<Rightarrow> scene list" where
  "candidates scenes gstart gend =
     filter (\<lambda>s. gstart + 30 < scene_timestamp s \<and> scene_timestamp s < gend - 30) scenes"

text \<open>
  Python's \<^verbatim>\<open>min(iterable, key=...)\<close> on a non-empty iterable: it starts from the first
  item and replaces the current best only by an item whose key is strictly smaller. The
  source calls it under \<^verbatim>\<open>if candidates:\<close>, so the first item \<open>x\<close> exists.
\<close>

definition py_min :: "('a \<Rightarrow> real) \<Rightarrow> 'a \<Rightarrow> 'a list \<Rightarrow> 'a" where
  "py_min key x xs = foldl (\<lambda>best item. if key item < key best then item else best) x xs"

text \<open>
  The body of \<^verbatim>\<open>for gstart, gend in gaps:\<close>, as a step on the list \<^verbatim>\<open>filled\<close>:
  \<^verbatim>\<open>
  center = (gstart + gend) / 2
  candidates = [...]
  if candidates:
      best = min(candidates, key=lambda s: abs(s["timestamp"] - center))
      filled.append({"timestamp": best["timestamp"], "type": "scene", "confidence": "medium"})
  \<close>
\<close>

definition fill_gap :: "scene list \<Rightarrow> break list \<Rightarrow> real \<times> real \<Rightarrow> break list" where
  "fill_gap scenes filled g =
     (case g of (gstart, gend) \<Rightarrow>
        let center = (gstart + gend) / 2 in
        (case candidates scenes gstart gend of
           [] \<Rightarrow> filled
         | c # cs \<Rightarrow>
             let best = py_min (\<lambda>s. \<bar>scene_timestamp s - center\<bar>) c cs
             in filled @ [\<lparr>timestamp = scene_timestamp best, type = Scene, confidence = Medium\<rparr>]))"

text \<open>
  The list \<^verbatim>\<open>breaks\<close> after \<^verbatim>\<open>breaks.sort(key=lambda x: x["timestamp"])\<close>: the
  high-confidence breaks in ascending order. \<^verbatim>\<open>list.sort(key=...)\<close> is a stable sort, as
  \<^const>\<open>sort_key\<close> is. Then the whole function:
  \<^verbatim>\<open>
  def find_optimal_breaks(duration, blacks, silences, scenes, max_gap_minutes=12):
      breaks = [...]
      breaks.sort(key=lambda x: x["timestamp"])
      max_gap = max_gap_minutes * 60
      filled = breaks[:]
      gaps = [...]
      for gstart, gend in gaps:
          ...
      filled.sort(key=lambda x: x["timestamp"])
      return filled
  \<close>
  \<^verbatim>\<open>gaps\<close> is complete before the loop starts, so the breaks appended by the loop do not
  change it. \<^verbatim>\<open>max_gap_minutes\<close> is the integer of the command line's \<^verbatim>\<open>--max-gap\<close>
  (default 12); any Python number can be passed, so it is a \<^typ>\<open>real\<close> here. \<^verbatim>\<open>silences\<close>
  is a parameter that the body never reads.
\<close>

definition high_breaks :: "black list \<Rightarrow> break list" where
  "high_breaks blacks = sort_key timestamp (seed_breaks blacks)"

definition find_optimal_breaks ::
  "real \<Rightarrow> black list \<Rightarrow> silence list \<Rightarrow> scene list \<Rightarrow> real \<Rightarrow> break list" where
  "find_optimal_breaks duration blacks silences scenes max_gap_minutes =
     (let breaks = high_breaks blacks;
          max_gap = max_gap_minutes * 60;
          filled = breaks;
          gaps = find_gaps duration filled max_gap;
          filled = foldl (fill_gap scenes) filled gaps
      in sort_key timestamp filled)"

text \<open>
  The value of the local variable \<^verbatim>\<open>gaps\<close> when the gap loop starts, as a function of the
  arguments; the claims about coverage gaps are stated on it.
\<close>

definition selector_gaps :: "real \<Rightarrow> black list \<Rightarrow> real \<Rightarrow> (real \<times> real) list" where
  "selector_gaps duration blacks max_gap_minutes =
     find_gaps duration (high_breaks blacks) (max_gap_minutes * 60)"


text \<open>The break appended for a scene cut.\<close>

definition scene_break :: "scene \<Rightarrow> break" where
  "scene_break s = \<lparr>timestamp = scene_timestamp s, type = Scene, confidence = Medium\<rparr>"

section \<open>Chapter Writer: \<^verbatim>\<open>write_chapters_to_video\<close>\<close>












section \<open>The Cleaner and the Selector on a store of Python objects\<close>

text \<open>
  Python lists and dicts are mutable objects reached through references, and a list holds
  references to its elements. To state what the two functions write and what their
  results share with their arguments, they are modelled a second time on an explicit
  store: a list of objects, the address of an object being its position. Allocation
  appends, so an address is fresh exactly when it is not below the length of the store
  at the call. Reading an address that holds the wrong kind of object is Python's
  \<^verbatim>\<open>TypeError\<close> or \<^verbatim>\<open>KeyError\<close>; the model returns \<open>None\<close> there. Numbers, strings and
  the tuples of \<^verbatim>\<open>gaps\<close> are immutable and stay values; \<^verbatim>\<open>gaps\<close> and \<^verbatim>\<open>candidates\<close> are
  local lists that are read once and dropped, and stay values as well.
\<close>

type_synonym addr = nat

datatype obj =
    PyList "addr list"
  | BlackDict black
  | SilenceDict silence
  | SceneDict scene
  | BreakDict break

type_synonym heap = "obj list"

definition lookup :: "heap \<Rightarrow> addr \<Rightarrow> obj option" where
  "lookup h a = (if a < length h then Some (h ! a) else None)"

definition alloc :: "heap \<Rightarrow> obj \<Rightarrow> heap \<times> addr" where
  "alloc h v = (h @ [v], length h)"

definition get_list :: "heap \<Rightarrow> addr \<Rightarrow> addr list option" where
  "get_list h a = (case lookup h a of Some (PyList rs) \<Rightarrow> Some rs | _ \<Rightarrow> None)"

definition get_black :: "heap \<Rightarrow> addr \<Rightarrow> black option" where
  "get_black h a = (case lookup h a of Some (BlackDict b) \<Rightarrow> Some b | _ \<Rightarrow> None)"

definition get_scene :: "heap \<Rightarrow> addr \<Rightarrow> scene option" where
  "get_scene h a = (case lookup h a of Some (SceneDict s) \<Rightarrow> Some s | _ \<Rightarrow> None)"

definition get_break :: "heap \<Rightarrow> addr \<Rightarrow> break option" where
  "get_break h a = (case lookup h a of Some (BreakDict b) \<Rightarrow> Some b | _ \<Rightarrow> None)"

text \<open>
  \<^verbatim>\<open>[b for b in blacks if b["start"] > start and b["end"] < duration - end]\<close>: a new list
  object holding the references of the kept elements, the elements themselves being the
  caller's dicts.
\<close>

definition clean_black_spaces_h ::
  "heap \<Rightarrow> addr \<Rightarrow> real \<Rightarrow> real \<Rightarrow> real \<Rightarrow> (heap \<times> addr) option" where
  "clean_black_spaces_h h blacks duration start end' =
     do {
       refs \<leftarrow> get_list h blacks;
       bs \<leftarrow> those (map (get_black h) refs);
       Some (alloc h (PyList (map fst
         (filter (\<lambda>(r, b). black_start b > start \<and> black_end b < duration - end')
            (zip refs bs)))))
     }"

text \<open>
  \<^verbatim>\<open>breaks = [{"timestamp": b["center"], "type": "black", "confidence": "high"} for b in blacks]\<close>:
  one new dict per element; the result is the store and the new references in order.
\<close>

fun seed_breaks_h :: "heap \<Rightarrow> addr list \<Rightarrow> (heap \<times> addr list) option" where
  "seed_breaks_h h [] = Some (h, [])"
| "seed_breaks_h h (r # rs) =
     do {
       b \<leftarrow> get_black h r;
       (h1, a) \<leftarrow> Some (alloc h (BreakDict
                    \<lparr>timestamp = black_center b, type = Black, confidence = High\<rparr>));
       (h2, as) \<leftarrow> seed_breaks_h h1 rs;
       Some (h2, a # as)
     }"

text \<open>
  \<^verbatim>\<open>l.sort(key=lambda x: x["timestamp"])\<close>: the list object at \<open>l\<close> is overwritten with its
  own references in stable ascending order of the timestamps they point to.
\<close>

definition sort_h :: "heap \<Rightarrow> addr \<Rightarrow> heap option" where
  "sort_h h l =
     do {
       refs \<leftarrow> get_list h l;
       bs \<leftarrow> those (map (get_break h) refs);
       Some (h[l := PyList (map fst (sort_key (\<lambda>(r, b). timestamp b) (zip refs bs)))])
     }"

text \<open>
  The body of the gap loop: the scene list is read, and when a candidate exists a new
  dict is allocated and its reference is appended to the list object \<^verbatim>\<open>filled\<close> in place.
\<close>

definition fill_gap_h :: "addr \<Rightarrow> addr \<Rightarrow> heap \<Rightarrow> real \<times> real \<Rightarrow> heap option" where
  "fill_gap_h scenes filled h g =
     (case g of (gstart, gend) \<Rightarrow>
        do {
          srefs \<leftarrow> get_list h scenes;
          ss \<leftarrow> those (map (get_scene h) srefs);
          let center = (gstart + gend) / 2 in
          (case candidates ss gstart gend of
             [] \<Rightarrow> Some h
           | c # cs \<Rightarrow>
               do {
                 let best = py_min (\<lambda>s. \<bar>scene_timestamp s - center\<bar>) c cs;
                 (h1, a) \<leftarrow> Some (alloc h (BreakDict
                              \<lparr>timestamp = scene_timestamp best, type = Scene,
                               confidence = Medium\<rparr>));
                 frefs \<leftarrow> get_list h1 filled;
                 Some (h1[filled := PyList (frefs @ [a])])
               })
        })"

fun fill_gaps_h :: "addr \<Rightarrow> addr \<Rightarrow> heap \<Rightarrow> (real \<times> real) list \<Rightarrow> heap option" where
  "fill_gaps_h scenes filled h [] = Some h"
| "fill_gaps_h scenes filled h (g # gaps) =
     do {
       h1 \<leftarrow> fill_gap_h scenes filled h g;
       fill_gaps_h scenes filled h1 gaps
     }"

text \<open>
  The whole selector. \<^verbatim>\<open>filled = breaks[:]\<close> allocates a second list object with the same
  references; the gaps are computed from the timestamps read through \<^verbatim>\<open>filled\<close>; the
  address returned is that of \<^verbatim>\<open>filled\<close>. The argument \<^verbatim>\<open>silences\<close> is never dereferenced.
\<close>

definition find_optimal_breaks_h ::
  "heap \<Rightarrow> real \<Rightarrow> addr \<Rightarrow> addr \<Rightarrow> addr \<Rightarrow> real \<Rightarrow> (heap \<times> addr) option" where
  "find_optimal_breaks_h h duration blacks silences scenes max_gap_minutes =
     do {
       brefs \<leftarrow> get_list h blacks;
       (h1, new) \<leftarrow> seed_breaks_h h brefs;
       (h2, breaks) \<leftarrow> Some (alloc h1 (PyList new));
       h3 \<leftarrow> sort_h h2 breaks;
       let max_gap = max_gap_minutes * 60;
       sorted_refs \<leftarrow> get_list h3 breaks;
       (h4, filled) \<leftarrow> Some (alloc h3 (PyList sorted_refs));
       frefs \<leftarrow> get_list h4 filled;
       bs \<leftarrow> those (map (get_break h4) frefs);
       let gaps = find_gaps duration bs max_gap;
       h5 \<leftarrow> fill_gaps_h scenes filled h4 gaps;
       h6 \<leftarrow> sort_h h5 filled;
       Some (h6, filled)
     }"

text \<open>
  What a reference to a list of dicts stands for: the values of the dicts it points to,
  in order, when every element is a dict of the expected kind.
\<close>

definition black_values :: "heap \<Rightarrow> addr \<Rightarrow> black list option" where
  "black_values h l = do { refs \<leftarrow> get_list h l; those (map (get_black h) refs) }"

definition scene_values :: "heap \<Rightarrow> addr \<Rightarrow> scene list option" where
  "scene_values h l = do { refs \<leftarrow> get_list h l; those (map (get_scene h) refs) }"

definition break_values :: "heap \<Rightarrow> addr \<Rightarrow> break list option" where
  "break_values h l = do { refs \<leftarrow> get_list h l; those (map (get_break h) refs) }"

text \<open>
  The state of the selector between two steps, for the proofs: \<open>l\<close> is a list object
  allocated since the store had \<open>n\<close> objects, and its elements are break dicts allocated
  since then, with the values \<open>bs\<close> in order.
\<close>

definition fresh_breaks :: "nat \<Rightarrow> heap \<Rightarrow> addr \<Rightarrow> break list \<Rightarrow> bool" where
  "fresh_breaks n h l bs \<longleftrightarrow>
     (\<exists>refs. get_list h l = Some refs
        \<and> list_all2 (\<lambda>r b. get_break h r = Some b) refs bs
        \<and> n \<le> l \<and> list_all (\<lambda>r. n \<le> r) refs)"

section \<open>The Candidate Cleaner keeps exactly the intervals inside the margins\<close>

lemma clean_black_spaces_filter:
  "clean_black_spaces blacks duration start end' =
     filter (\<lambda>b. black_start b > start \<and> black_end b < duration - end') blacks"
  by (induction blacks) simp_all

text \<open>
  Claim C7. The Candidate Cleaner returns exactly the subsequence, in input order, of the
  intervals \<open>b\<close> with \<open>b.start > startMargin\<close> and \<open>b.end < duration - endMargin\<close> (both
  strict); every other interval is discarded; the default margins are 20 and 10; the
  function is total, and an input of which every interval is filtered gives the empty
  sequence.
\<close>

theorem clean_black_spaces_spec:
  "clean_black_spaces blacks duration start end' =
     filter (\<lambda>b. black_start b > start \<and> black_end b < duration - end') blacks
   \<and> subseq (clean_black_spaces blacks duration start end') blacks
   \<and> set (clean_black_spaces blacks duration start end') =
       {b \<in> set blacks. black_start b > start \<and> black_end b < duration - end'}
   \<and> clean_black_spaces_default blacks duration =
       filter (\<lambda>b. black_start b > 20 \<and> black_end b < duration - 10) blacks
   \<and> ((\<forall>b \<in> set blacks. \<not> (black_start b > start \<and> black_end b < duration - end'))
        \<longrightarrow> clean_black_spaces blacks duration start end' = [])"
  by (auto simp: clean_black_spaces_filter clean_black_spaces_default_def filter_empty_conv)

theorem clean_black_spaces_spec_witness:
  "clean_black_spaces [\<lparr>black_start = 5, black_end = 6, black_center = 11 / 2\<rparr>] 100 20 10 = []
   \<and> clean_black_spaces
        [\<lparr>black_start = 5, black_end = 6, black_center = 11 / 2\<rparr>,
         \<lparr>black_start = 100, black_end = 102, black_center = 101\<rparr>,
         \<lparr>black_start = 20, black_end = 30, black_center = 25\<rparr>,
         \<lparr>black_start = 3580, black_end = 3590, black_center = 3585\<rparr>,
         \<lparr>black_start = 200, black_end = 201, black_center = 401 / 2\<rparr>] 3600 20 10 =
        [\<lparr>black_start = 100, black_end = 102, black_center = 101\<rparr>,
         \<lparr>black_start = 200, black_end = 201, black_center = 401 / 2\<rparr>]"
  using clean_black_spaces_spec
    [of "[\<lparr>black_start = 5, black_end = 6, black_center = 11 / 2\<rparr>]" 100 20 10]
  by simp

section \<open>Auxiliary facts about the Break Selector\<close>

lemma fill_gap_append: "fill_gap scenes filled g = filled @ fill_gap scenes [] g"
  by (simp add: fill_gap_def Let_def split: prod.splits list.splits)

lemma foldl_fill_gap:
  "foldl (fill_gap scenes) filled gaps = filled @ concat (map (fill_gap scenes []) gaps)"
proof (induction gaps arbitrary: filled)
  case Nil
  show ?case by simp
next
  case (Cons g gaps)
  have "foldl (fill_gap scenes) filled (g # gaps) = foldl (fill_gap scenes) (fill_gap scenes filled g) gaps"
    by simp
  also have "\<dots> = fill_gap scenes filled g @ concat (map (fill_gap scenes []) gaps)"
    by (rule Cons.IH)
  also have "\<dots> = filled @ concat (map (fill_gap scenes []) (g # gaps))"
    by (simp add: fill_gap_append [of scenes filled g])
  finally show ?case .
qed

lemma py_min_snoc:
  "py_min key x (xs @ [y]) = (if key y < key (py_min key x xs) then y else py_min key x xs)"
  by (simp add: py_min_def)

lemma py_min_first_min:
  "\<exists>pre post. x # xs = pre @ py_min key x xs # post
      \<and> (\<forall>y \<in> set pre. key (py_min key x xs) < key y)
      \<and> (\<forall>y \<in> set post. key (py_min key x xs) \<le> key y)"
proof (induction xs rule: rev_induct)
  case Nil
  have "[x] = [] @ py_min key x [] # []" by (simp add: py_min_def)
  then show ?case by fastforce
next
  case (snoc y xs)
  then obtain pre post where decomp: "x # xs = pre @ py_min key x xs # post"
    and before: "\<forall>z \<in> set pre. key (py_min key x xs) < key z"
    and after: "\<forall>z \<in> set post. key (py_min key x xs) \<le> key z"
    by blast
  show ?case
  proof (cases "key y < key (py_min key x xs)")
    case True
    then have r: "py_min key x (xs @ [y]) = y" by (simp add: py_min_snoc)
    have all: "\<forall>z \<in> set (x # xs). key y < key z"
    proof
      fix z assume "z \<in> set (x # xs)"
      then have "z \<in> set pre \<or> z = py_min key x xs \<or> z \<in> set post"
        by (auto simp: decomp)
      then have "key (py_min key x xs) \<le> key z"
        using before after by fastforce
      with True show "key y < key z" by simp
    qed
    have "x # (xs @ [y]) = (x # xs) @ py_min key x (xs @ [y]) # []" by (simp add: r)
    with all r show ?thesis by (metis empty_iff list.set(1))
  next
    case False
    then have r: "py_min key x (xs @ [y]) = py_min key x xs" by (simp add: py_min_snoc)
    have "x # (xs @ [y]) = pre @ py_min key x (xs @ [y]) # (post @ [y])"
      using decomp by (simp add: r)
    moreover have "\<forall>z \<in> set (post @ [y]). key (py_min key x (xs @ [y])) \<le> key z"
      using after False by (auto simp: r)
    moreover have "\<forall>z \<in> set pre. key (py_min key x (xs @ [y])) < key z"
      using before by (simp add: r)
    ultimately show ?thesis by blast
  qed
qed

lemma set_find_optimal_breaks:
  "set (find_optimal_breaks duration blacks silences scenes m) =
     set (high_breaks blacks) \<union>
     (\<Union>g \<in> set (selector_gaps duration blacks m). set (fill_gap scenes [] g))"
  by (simp add: find_optimal_breaks_def selector_gaps_def Let_def foldl_fill_gap)



lemma set_concat_if:
  "set (concat (map (\<lambda>i. if P i then [f i] else []) [0..<n])) = {f i | i. i < n \<and> P i}"
  by auto

lemma find_gaps_set:
  assumes "filled \<noteq> []"
  shows "g \<in> set (find_gaps duration filled mg) \<longleftrightarrow>
           (g = (0, timestamp (filled ! 0)) \<and> timestamp (filled ! 0) > mg) \<or>
           (\<exists>i. i + 1 < length filled
               \<and> g = (timestamp (filled ! i), timestamp (filled ! (i + 1)))
               \<and> timestamp (filled ! (i + 1)) - timestamp (filled ! i) > mg)"
proof -
  have idx: "\<And>i. i < length filled - 1 \<longleftrightarrow> i + 1 < length filled"
    by auto
  have "set (find_gaps duration filled mg) =
          set (if timestamp (filled ! 0) > mg then [(0, timestamp (filled ! 0))] else []) \<union>
          {(timestamp (filled ! i), timestamp (filled ! (i + 1))) | i.
             i < length filled - 1 \<and> timestamp (filled ! (i + 1)) - timestamp (filled ! i) > mg}"
    unfolding find_gaps_def using assms
    by (simp only: not_False_eq_True if_True set_append set_concat_if)
  then show ?thesis
    unfolding idx by (cases "timestamp (filled ! 0) > mg") auto
qed

lemma high_breaks_sorted: "sorted (map timestamp (high_breaks blacks))"
  by (simp add: high_breaks_def)

lemma high_breaks_mset: "mset (high_breaks blacks) = mset (seed_breaks blacks)"
  by (simp add: high_breaks_def)

lemma high_breaks_Nil_iff: "high_breaks blacks = [] \<longleftrightarrow> blacks = []"
proof -
  have "length (high_breaks blacks) = length blacks"
    by (simp add: high_breaks_def seed_breaks_def)
  then show ?thesis by (metis length_0_conv)
qed

lemma high_breaks_set:
  "set (high_breaks blacks) =
     (\<lambda>b. \<lparr>timestamp = black_center b, type = Black, confidence = High\<rparr>) ` set blacks"
  by (simp add: high_breaks_def seed_breaks_def)

section \<open>Coverage gaps\<close>





section \<open>Gap filling\<close>

lemma fill_gap_Nil_cases:
  "fill_gap scenes [] (gs, ge) = [] \<or>
   (\<exists>s \<in> set (candidates scenes gs ge). fill_gap scenes [] (gs, ge) = [scene_break s])"
proof (cases "candidates scenes gs ge")
  case Nil
  then show ?thesis by (simp add: fill_gap_def)
next
  case (Cons c cs)
  obtain pre post where
    "c # cs = pre @ py_min (\<lambda>s. \<bar>scene_timestamp s - (gs + ge) / 2\<bar>) c cs # post"
    using py_min_first_min [of c cs "\<lambda>s. \<bar>scene_timestamp s - (gs + ge) / 2\<bar>"] by blast
  then have "py_min (\<lambda>s. \<bar>scene_timestamp s - (gs + ge) / 2\<bar>) c cs \<in> set (c # cs)"
    by (metis in_set_conv_decomp)
  then show ?thesis
    by (auto simp: fill_gap_def Cons scene_break_def Let_def)
qed

lemma fill_gap_member:
  assumes "b \<in> set (fill_gap scenes [] (gs, ge))"
  shows "\<exists>s \<in> set scenes. b = scene_break s
           \<and> gs + 30 < scene_timestamp s \<and> scene_timestamp s < ge - 30"
proof -
  from fill_gap_Nil_cases [of scenes gs ge] assms
  obtain s where "s \<in> set (candidates scenes gs ge)" and "b = scene_break s"
    by auto
  then show ?thesis by (auto simp: candidates_def)
qed

lemma fill_gap_no_candidate:
  assumes "\<forall>s \<in> set scenes. \<not> (gs + 30 < scene_timestamp s \<and> scene_timestamp s < ge - 30)"
  shows "fill_gap scenes filled (gs, ge) = filled"
proof -
  have "candidates scenes gs ge = []"
    using assms by (simp add: candidates_def filter_empty_conv)
  then show ?thesis by (simp add: fill_gap_def)
qed

lemma high_breaks_confidence: "b \<in> set (high_breaks blacks) \<Longrightarrow> confidence b = High"
  by (auto simp: high_breaks_set)

text \<open>
  Claim C2. Every medium-confidence break of the selector's output was filled into one of
  the gaps \<open>(gStart, gEnd)\<close>, and \<open>gStart + 30 < b.timestamp < gEnd - 30\<close> holds strictly for
  it; so a scene cut at exactly \<open>gStart + 30\<close> or \<open>gEnd - 30\<close> is never the one selected, and
  a gap with no scene cut strictly inside the margins leaves the list as it was.
\<close>

theorem gap_fill_strictly_inside_margins:
  "(\<forall>b \<in> set (find_optimal_breaks duration blacks silences scenes max_gap_minutes).
      confidence b = Medium \<longrightarrow>
      (\<exists>(gstart, gend) \<in> set (selector_gaps duration blacks max_gap_minutes).
         b \<in> set (fill_gap scenes [] (gstart, gend))
         \<and> gstart + 30 < timestamp b \<and> timestamp b < gend - 30))
   \<and> (\<forall>gstart gend b. b \<in> set (fill_gap scenes [] (gstart, gend)) \<longrightarrow>
          gstart + 30 < timestamp b \<and> timestamp b < gend - 30
          \<and> timestamp b \<noteq> gstart + 30 \<and> timestamp b \<noteq> gend - 30
          \<and> type b = Scene \<and> confidence b = Medium
          \<and> (\<exists>s \<in> set scenes. timestamp b = scene_timestamp s))
   \<and> (\<forall>gstart gend filled.
          (\<forall>s \<in> set scenes. \<not> (gstart + 30 < scene_timestamp s \<and> scene_timestamp s < gend - 30))
          \<longrightarrow> fill_gap scenes filled (gstart, gend) = filled)"
proof -
  have inside: "gstart + 30 < timestamp b \<and> timestamp b < gend - 30
          \<and> timestamp b \<noteq> gstart + 30 \<and> timestamp b \<noteq> gend - 30
          \<and> type b = Scene \<and> confidence b = Medium
          \<and> (\<exists>s \<in> set scenes. timestamp b = scene_timestamp s)"
    if "b \<in> set (fill_gap scenes [] (gstart, gend))" for gstart gend b
  proof -
    from fill_gap_member [OF that] obtain s where "s \<in> set scenes" "b = scene_break s"
      "gstart + 30 < scene_timestamp s" "scene_timestamp s < gend - 30"
      by blast
    then show ?thesis by (auto simp: scene_break_def)
  qed
  have from_gap: "\<exists>(gstart, gend) \<in> set (selector_gaps duration blacks max_gap_minutes).
         b \<in> set (fill_gap scenes [] (gstart, gend))
         \<and> gstart + 30 < timestamp b \<and> timestamp b < gend - 30"
    if mem: "b \<in> set (find_optimal_breaks duration blacks silences scenes max_gap_minutes)"
      and med: "confidence b = Medium" for b
  proof -
    have "b \<notin> set (high_breaks blacks)"
      using high_breaks_confidence [of b blacks] med by auto
    with mem obtain g where g: "g \<in> set (selector_gaps duration blacks max_gap_minutes)"
      and b: "b \<in> set (fill_gap scenes [] g)"
      by (auto simp: set_find_optimal_breaks)
    obtain gstart gend where "g = (gstart, gend)" by (cases g)
    with g b inside [of b gstart gend] show ?thesis by blast
  qed
  show ?thesis
    using inside from_gap fill_gap_no_candidate by blast
qed


theorem gap_fill_strictly_inside_margins_witness:
  "find_optimal_breaks 100 [] []
     [\<lparr>scene_timestamp = 30\<rparr>, \<lparr>scene_timestamp = 65\<rparr>, \<lparr>scene_timestamp = 70\<rparr>] 1 =
     [\<lparr>timestamp = 65, type = Scene, confidence = Medium\<rparr>]
   \<and> selector_gaps 100 [] 1 = [(0, 100)]
   \<and> fill_gap [\<lparr>scene_timestamp = 30\<rparr>, \<lparr>scene_timestamp = 65\<rparr>, \<lparr>scene_timestamp = 70\<rparr>]
         [] (0, 100) = [\<lparr>timestamp = 65, type = Scene, confidence = Medium\<rparr>]
   \<and> (0::real) + 30 < 65 \<and> (65::real) < 100 - 30
   \<and> fill_gap [\<lparr>scene_timestamp = 30\<rparr>, \<lparr>scene_timestamp = 70\<rparr>] [] (0, 100) = []"
  using gap_fill_strictly_inside_margins
    [of 100 "[]" "[]"
      "[\<lparr>scene_timestamp = 30\<rparr>, \<lparr>scene_timestamp = 65\<rparr>, \<lparr>scene_timestamp = 70\<rparr>]" 1]
    gap_fill_strictly_inside_margins
    [of 100 "[]" "[]" "[\<lparr>scene_timestamp = 30\<rparr>, \<lparr>scene_timestamp = 70\<rparr>]" 1]
  by (simp add: find_optimal_breaks_def selector_gaps_def high_breaks_def seed_breaks_def
      find_gaps_def fill_gap_def candidates_def py_min_def)

section \<open>Range of the output timestamps\<close>





section \<open>Order of the output\<close>

text \<open>
  Claim C4. The returned list is sorted non-decreasing by timestamp. Nothing is
  deduplicated: as a multiset the output is the seeded breaks together with the breaks
  appended for the gaps, equal timestamps included.
\<close>

theorem find_optimal_breaks_sorted:
  "sorted (map timestamp (find_optimal_breaks duration blacks silences scenes max_gap_minutes))
   \<and> mset (find_optimal_breaks duration blacks silences scenes max_gap_minutes) =
       mset (seed_breaks blacks) +
       mset (concat (map (fill_gap scenes []) (selector_gaps duration blacks max_gap_minutes)))"
  by (simp add: find_optimal_breaks_def Let_def foldl_fill_gap selector_gaps_def high_breaks_mset)

section \<open>No trailing break\<close>

lemma sorted_nth_le_last:
  assumes "sorted (map f xs)" and "i < length xs"
  shows "f (xs ! i) \<le> f (last xs)"
proof -
  have "xs \<noteq> []" using assms(2) by auto
  then have "last xs = xs ! (length xs - 1)" by (rule last_conv_nth)
  moreover have "map f xs ! i \<le> map f xs ! (length xs - 1)"
    using assms by (intro sorted_nth_mono) auto
  ultimately show ?thesis using assms(2) by simp
qed

text \<open>
  Claim C5. When at least one black break exists, every medium-confidence break of the
  output lies strictly before the last high-confidence break (the one with the greatest
  timestamp), whatever \<open>duration\<close> is: no gap ends after that break.
\<close>

theorem no_trailing_break:
  assumes "blacks \<noteq> []"
  shows "(\<forall>x \<in> set (find_optimal_breaks duration blacks silences scenes max_gap_minutes).
            confidence x = Medium \<longrightarrow> timestamp x < timestamp (last (high_breaks blacks)))
         \<and> (\<forall>h \<in> set (high_breaks blacks). timestamp h \<le> timestamp (last (high_breaks blacks)))
         \<and> last (high_breaks blacks) \<in>
             set (find_optimal_breaks duration blacks silences scenes max_gap_minutes)"
proof -
  let ?hb = "high_breaks blacks"
  have ne: "?hb \<noteq> []" using assms by (simp add: high_breaks_Nil_iff)
  have le_last: "timestamp (?hb ! i) \<le> timestamp (last ?hb)" if "i < length ?hb" for i
    using sorted_nth_le_last [OF high_breaks_sorted that] .
  have high: "\<forall>h \<in> set ?hb. timestamp h \<le> timestamp (last ?hb)"
    using le_last by (auto simp: in_set_conv_nth)
  have medium: "timestamp x < timestamp (last ?hb)"
    if mem: "x \<in> set (find_optimal_breaks duration blacks silences scenes max_gap_minutes)"
      and med: "confidence x = Medium" for x
  proof -
    have "x \<notin> set ?hb" using high_breaks_confidence [of x blacks] med by auto
    with mem obtain g where g: "g \<in> set (selector_gaps duration blacks max_gap_minutes)"
      and x: "x \<in> set (fill_gap scenes [] g)"
      by (auto simp: set_find_optimal_breaks)
    obtain gs ge where pair: "g = (gs, ge)" by (cases g)
    from x have inner: "timestamp x < ge - 30"
      using fill_gap_member [of x scenes gs ge] by (auto simp: pair scene_break_def)
    from g ne consider "ge = timestamp (?hb ! 0)" |
      i where "i + 1 < length ?hb" "ge = timestamp (?hb ! (i + 1))"
      by (auto simp: selector_gaps_def find_gaps_set pair)
    then have "ge \<le> timestamp (last ?hb)"
    proof cases
      case 1
      with le_last [of 0] ne show ?thesis by simp
    next
      case 2
      with le_last [of "i + 1"] show ?thesis by simp
    qed
    with inner show ?thesis by linarith
  qed
  have "last ?hb \<in> set ?hb" using ne by simp
  then have "last ?hb \<in> set (find_optimal_breaks duration blacks silences scenes max_gap_minutes)"
    by (simp add: set_find_optimal_breaks)
  with high medium show ?thesis by blast
qed

theorem no_trailing_break_witness:
  "[\<lparr>black_start = 999, black_end = 1001, black_center = 1000\<rparr>,
    \<lparr>black_start = 99, black_end = 101, black_center = 100\<rparr>] \<noteq> []
   \<and> find_optimal_breaks 36000
       [\<lparr>black_start = 999, black_end = 1001, black_center = 1000\<rparr>,
        \<lparr>black_start = 99, black_end = 101, black_center = 100\<rparr>] []
       [\<lparr>scene_timestamp = 500\<rparr>, \<lparr>scene_timestamp = 3000\<rparr>, \<lparr>scene_timestamp = 20000\<rparr>] 12 =
       [\<lparr>timestamp = 100, type = Black, confidence = High\<rparr>,
        \<lparr>timestamp = 500, type = Scene, confidence = Medium\<rparr>,
        \<lparr>timestamp = 1000, type = Black, confidence = High\<rparr>]
   \<and> timestamp (last (high_breaks
         [\<lparr>black_start = 999, black_end = 1001, black_center = 1000\<rparr>,
          \<lparr>black_start = 99, black_end = 101, black_center = 100\<rparr>])) = 1000"
  using no_trailing_break
    [of "[\<lparr>black_start = 999, black_end = 1001, black_center = 1000\<rparr>,
          \<lparr>black_start = 99, black_end = 101, black_center = 100\<rparr>]" 36000 "[]"
        "[\<lparr>scene_timestamp = 500\<rparr>, \<lparr>scene_timestamp = 3000\<rparr>, \<lparr>scene_timestamp = 20000\<rparr>]" 12]
  by (simp add: find_optimal_breaks_def high_breaks_def seed_breaks_def
      find_gaps_def fill_gap_def candidates_def py_min_def)

section \<open>The scene cut chosen for a gap\<close>




section \<open>The silence intervals are not read\<close>

text \<open>
  Claim C9. The selector's output does not depend on its silence argument: any two
  silence lists give the same break list.
\<close>

theorem find_optimal_breaks_ignores_silences:
  "find_optimal_breaks duration blacks silences1 scenes max_gap_minutes =
   find_optimal_breaks duration blacks silences2 scenes max_gap_minutes"
  by (simp add: find_optimal_breaks_def)

section \<open>Chapters written\<close>








section \<open>Reads and writes of the store\<close>

lemma those_map_eq_Some:
  "those (map f xs) = Some ys \<longleftrightarrow> list_all2 (\<lambda>x y. f x = Some y) xs ys"
proof (induction xs arbitrary: ys)
  case Nil
  show ?case by auto
next
  case (Cons x xs)
  show ?case
  proof (cases "f x")
    case None
    then show ?thesis by (auto simp: list_all2_Cons1)
  next
    case (Some y)
    then show ?thesis
      using Cons.IH by (cases "those (map f xs)") (auto simp: list_all2_Cons1)
  qed
qed

lemma lookup_append: "lookup h a = Some v \<Longrightarrow> lookup (h @ zs) a = Some v"
  by (auto simp: lookup_def nth_append split: if_splits)

lemma lookup_new: "lookup (h @ v # zs) (length h) = Some v"
  by (simp add: lookup_def)

lemma lookup_update_other: "a \<noteq> l \<Longrightarrow> lookup (h[l := v]) a = lookup h a"
  by (simp add: lookup_def)

lemma lookup_update_same: "l < length h \<Longrightarrow> lookup (h[l := v]) l = Some v"
  by (simp add: lookup_def)

lemma get_list_iff: "get_list h a = Some rs \<longleftrightarrow> lookup h a = Some (PyList rs)"
  by (auto simp: get_list_def split: option.splits obj.splits)

lemma get_black_iff: "get_black h a = Some b \<longleftrightarrow> lookup h a = Some (BlackDict b)"
  by (auto simp: get_black_def split: option.splits obj.splits)

lemma get_scene_iff: "get_scene h a = Some s \<longleftrightarrow> lookup h a = Some (SceneDict s)"
  by (auto simp: get_scene_def split: option.splits obj.splits)

lemma get_break_iff: "get_break h a = Some b \<longleftrightarrow> lookup h a = Some (BreakDict b)"
  by (auto simp: get_break_def split: option.splits obj.splits)

lemmas get_iffs = get_list_iff get_black_iff get_scene_iff get_break_iff

lemma seed_breaks_h_run:
  assumes "list_all2 (\<lambda>r b. get_black h r = Some b) rs bs"
  shows "seed_breaks_h h rs =
           Some (h @ map BreakDict (seed_breaks bs), [length h..<length h + length rs])"
  using assms
proof (induction rs arbitrary: h bs)
  case Nil
  then show ?case by (simp add: seed_breaks_def)
next
  case (Cons r rs)
  then obtain b bs' where bs: "bs = b # bs'" and r: "get_black h r = Some b"
    and rest: "list_all2 (\<lambda>r b. get_black h r = Some b) rs bs'"
    by (auto simp: list_all2_Cons1)
  let ?v = "BreakDict \<lparr>timestamp = black_center b, type = Black, confidence = High\<rparr>"
  have "list_all2 (\<lambda>r b. get_black (h @ [?v]) r = Some b) rs bs'"
    using rest by (rule list_all2_mono) (simp add: get_black_iff lookup_append)
  then have "seed_breaks_h (h @ [?v]) rs =
      Some ((h @ [?v]) @ map BreakDict (seed_breaks bs'),
            [length (h @ [?v])..<length (h @ [?v]) + length rs])"
    by (rule Cons.IH)
  then have step: "seed_breaks_h h (r # rs) =
      Some ((h @ [?v]) @ map BreakDict (seed_breaks bs'),
            length h # [length (h @ [?v])..<length (h @ [?v]) + length rs])"
    by (simp add: r alloc_def del: upt_Suc)
  have addrs: "length h # [length (h @ [?v])..<length (h @ [?v]) + length rs] =
      [length h..<length h + length (r # rs)]"
    by (simp add: upt_conv_Cons del: upt_Suc)
  have store: "(h @ [?v]) @ map BreakDict (seed_breaks bs') = h @ map BreakDict (seed_breaks bs)"
    by (simp add: bs seed_breaks_def)
  show ?case unfolding step addrs store ..
qed

lemma prefix_update:
  assumes "prefix h0 h" and "length h0 \<le> l"
  shows "prefix h0 (h[l := v])"
proof -
  from assms(1) obtain zs where "h = h0 @ zs" by (auto simp: prefix_def)
  then have "h[l := v] = h0 @ zs[l - length h0 := v]"
    using assms(2) by (simp add: list_update_append)
  then show ?thesis by simp
qed

lemma prefix_lookup:
  assumes "prefix h0 h" and "lookup h0 a = Some v"
  shows "lookup h a = Some v"
  using assms by (auto simp: prefix_def lookup_append)

lemma lookup_less: "lookup h a = Some v \<Longrightarrow> a < length h"
  by (simp add: lookup_def split: if_splits)

lemma fresh_breaks_alloc:
  "fresh_breaks (length h) ((h @ map BreakDict xs) @ [PyList [length h..<length h + length xs]])
     (length (h @ map BreakDict xs)) xs"
proof -
  let ?h2 = "(h @ map BreakDict xs) @ [PyList [length h..<length h + length xs]]"
  have "get_break ?h2 (length h + i) = Some (xs ! i)" if "i < length xs" for i
    using that by (simp add: get_break_iff lookup_def nth_append)
  then have "list_all2 (\<lambda>r b. get_break ?h2 r = Some b) [length h..<length h + length xs] xs"
    by (simp add: list_all2_conv_all_nth)
  moreover have "get_list ?h2 (length (h @ map BreakDict xs)) =
      Some [length h..<length h + length xs]"
    unfolding get_list_iff by (rule lookup_new)
  ultimately show ?thesis
    unfolding fresh_breaks_def by (auto simp: list_all_iff)
qed

lemma map_snd_sort_key:
  "map snd (sort_key (\<lambda>(r, b). f b) ps) = sort_key f (map snd ps)"
proof (induction ps)
  case Nil
  show ?case by simp
next
  case (Cons p ps)
  have ins: "map snd (insort_key (\<lambda>(r, b). f b) p qs) = insort_key f (snd p) (map snd qs)" for qs
    by (induction qs) (auto simp: case_prod_unfold)
  show ?case by (simp add: ins Cons.IH)
qed

lemma fresh_breaks_sort:
  assumes "fresh_breaks n h l bs"
  shows "\<exists>refs'. sort_h h l = Some (h[l := PyList refs'])
           \<and> fresh_breaks n (h[l := PyList refs']) l (sort_key timestamp bs)"
proof -
  from assms obtain refs where l: "get_list h l = Some refs"
    and vals: "list_all2 (\<lambda>r b. get_break h r = Some b) refs bs"
    and fresh: "n \<le> l" "list_all (\<lambda>r. n \<le> r) refs"
    unfolding fresh_breaks_def by blast
  let ?ps = "sort_key (\<lambda>(r, b). timestamp b) (zip refs bs)"
  let ?h' = "h[l := PyList (map fst ?ps)]"
  have len: "length refs = length bs" using vals by (rule list_all2_lengthD)
  have run: "sort_h h l = Some ?h'"
    using vals by (simp add: sort_h_def l those_map_eq_Some [THEN iffD2])
  have pairs: "\<forall>p \<in> set ?ps. get_break h (fst p) = Some (snd p) \<and> n \<le> fst p"
  proof
    fix p assume "p \<in> set ?ps"
    then have p: "p \<in> set (zip refs bs)" by simp
    then have "get_break h (fst p) = Some (snd p)"
      using vals by (auto simp: list_all2_iff)
    moreover have "fst p \<in> set refs" using p by (metis prod.collapse set_zip_leftD)
    ultimately show "get_break h (fst p) = Some (snd p) \<and> n \<le> fst p"
      using fresh(2) by (simp add: list_all_iff)
  qed
  have l_less: "l < length h" using l by (auto simp: get_list_iff dest: lookup_less)
  have kept: "get_break ?h' r = Some b" if "get_break h r = Some b" for r b
  proof -
    have "r \<noteq> l" using that l by (auto simp: get_iffs)
    then show ?thesis using that by (simp add: get_break_iff lookup_update_other)
  qed
  have "list_all2 (\<lambda>x y. get_break ?h' (fst x) = Some (snd y)) ?ps ?ps"
    unfolding list_all2_same using pairs kept by blast
  then have "list_all2 (\<lambda>r b. get_break ?h' r = Some b) (map fst ?ps) (map snd ?ps)"
    by (simp add: list_all2_map1 list_all2_map2)
  moreover have "map snd ?ps = sort_key timestamp bs"
    using len by (simp add: map_snd_sort_key)
  moreover have "get_list ?h' l = Some (map fst ?ps)"
    using l_less by (simp add: get_list_iff lookup_update_same)
  moreover have "list_all (\<lambda>r. n \<le> r) (map fst ?ps)"
    using pairs by (simp add: list_all_iff)
  ultimately have "fresh_breaks n ?h' l (sort_key timestamp bs)"
    unfolding fresh_breaks_def using fresh(1) by auto
  with run show ?thesis by blast
qed

lemma fresh_breaks_copy:
  assumes "fresh_breaks n h l bs" and "get_list h l = Some refs" and "n \<le> length h"
  shows "fresh_breaks n (h @ [PyList refs]) (length h) bs"
proof -
  from assms(1,2) have vals: "list_all2 (\<lambda>r b. get_break h r = Some b) refs bs"
    and fresh: "list_all (\<lambda>r. n \<le> r) refs"
    unfolding fresh_breaks_def by auto
  have "list_all2 (\<lambda>r b. get_break (h @ [PyList refs]) r = Some b) refs bs"
    using vals by (rule list_all2_mono) (simp add: get_break_iff lookup_append)
  moreover have "get_list (h @ [PyList refs]) (length h) = Some refs"
    unfolding get_list_iff by (rule lookup_new)
  ultimately show ?thesis
    unfolding fresh_breaks_def using fresh assms(3) by auto
qed

lemma fill_gap_h_run:
  assumes pre: "prefix h0 h" and fb: "fresh_breaks (length h0) h filled bs"
    and srefs: "get_list h0 scenes = Some srefs"
    and ss: "list_all2 (\<lambda>r s. get_scene h0 r = Some s) srefs ss"
  shows "\<exists>h'. fill_gap_h scenes filled h g = Some h' \<and> prefix h0 h'
           \<and> fresh_breaks (length h0) h' filled (fill_gap ss bs g)"
proof -
  obtain gstart gend where g: "g = (gstart, gend)" by (cases g)
  have read_list: "get_list h scenes = Some srefs"
    using srefs pre by (simp add: get_list_iff prefix_lookup)
  have "list_all2 (\<lambda>r s. get_scene h r = Some s) srefs ss"
    using ss by (rule list_all2_mono) (use pre in \<open>simp add: get_scene_iff prefix_lookup\<close>)
  then have read_scenes: "those (map (get_scene h) srefs) = Some ss"
    by (simp add: those_map_eq_Some)
  show ?thesis
  proof (cases "candidates ss gstart gend")
    case Nil
    then have "fill_gap_h scenes filled h g = Some h" and "fill_gap ss bs g = bs"
      by (simp_all add: fill_gap_h_def fill_gap_def g read_list read_scenes)
    with pre fb show ?thesis by simp
  next
    case (Cons c cs)
    let ?nb = "\<lparr>timestamp = scene_timestamp
                   (py_min (\<lambda>s. \<bar>scene_timestamp s - (gstart + gend) / 2\<bar>) c cs),
                 type = Scene, confidence = Medium\<rparr>"
    let ?h1 = "h @ [BreakDict ?nb]"
    from fb obtain frefs where filled: "get_list h filled = Some frefs"
      and vals: "list_all2 (\<lambda>r b. get_break h r = Some b) frefs bs"
      and fresh: "length h0 \<le> filled" "list_all (\<lambda>r. length h0 \<le> r) frefs"
      unfolding fresh_breaks_def by blast
    let ?h' = "?h1[filled := PyList (frefs @ [length h])]"
    have filled_less: "filled < length h"
      using filled by (auto simp: get_list_iff dest: lookup_less)
    have filled1: "get_list ?h1 filled = Some frefs"
      using filled by (simp add: get_list_iff lookup_append)
    have run: "fill_gap_h scenes filled h g = Some ?h'"
      by (simp add: fill_gap_h_def g read_list read_scenes Cons alloc_def filled1 Let_def)
    have pure: "fill_gap ss bs g = bs @ [?nb]"
      by (simp add: fill_gap_def g Cons)
    have len: "length h0 \<le> length h" using pre by (rule prefix_length_le)
    have frame: "prefix h0 ?h'"
      using pre fresh(1) by (intro prefix_update) simp_all
    have old: "get_break ?h' r = Some b" if "get_break h r = Some b" for r b
    proof -
      have "r \<noteq> filled" using that filled by (auto simp: get_iffs)
      then show ?thesis using that by (simp add: get_break_iff lookup_update_other lookup_append)
    qed
    have "list_all2 (\<lambda>r b. get_break ?h' r = Some b) frefs bs"
      using vals by (rule list_all2_mono) (rule old)
    moreover have "get_break ?h' (length h) = Some ?nb"
      using filled_less by (simp add: get_break_iff lookup_update_other lookup_new)
    ultimately have "list_all2 (\<lambda>r b. get_break ?h' r = Some b) (frefs @ [length h]) (bs @ [?nb])"
      by (simp add: list_all2_appendI)
    moreover have "get_list ?h' filled = Some (frefs @ [length h])"
      using filled_less by (simp add: get_list_iff lookup_update_same)
    ultimately have "fresh_breaks (length h0) ?h' filled (bs @ [?nb])"
      unfolding fresh_breaks_def using fresh len by auto
    with run frame pure show ?thesis by simp
  qed
qed

lemma fill_gaps_h_run:
  assumes "prefix h0 h" and "fresh_breaks (length h0) h filled bs"
    and "get_list h0 scenes = Some srefs"
    and "list_all2 (\<lambda>r s. get_scene h0 r = Some s) srefs ss"
  shows "\<exists>h'. fill_gaps_h scenes filled h gaps = Some h' \<and> prefix h0 h'
           \<and> fresh_breaks (length h0) h' filled (foldl (fill_gap ss) bs gaps)"
  using assms(1,2)
proof (induction gaps arbitrary: h bs)
  case Nil
  then show ?case by simp
next
  case (Cons g gaps)
  from fill_gap_h_run [OF Cons.prems assms(3,4), of g]
  obtain h1 where step: "fill_gap_h scenes filled h g = Some h1" and frame: "prefix h0 h1"
    and fb: "fresh_breaks (length h0) h1 filled (fill_gap ss bs g)"
    by blast
  from Cons.IH [OF frame fb] step show ?case by simp
qed

lemma black_values_iff:
  "black_values h l = Some bs \<longleftrightarrow>
     (\<exists>refs. get_list h l = Some refs \<and> list_all2 (\<lambda>r b. get_black h r = Some b) refs bs)"
  by (cases "get_list h l") (simp_all add: black_values_def those_map_eq_Some)

lemma scene_values_iff:
  "scene_values h l = Some ss \<longleftrightarrow>
     (\<exists>refs. get_list h l = Some refs \<and> list_all2 (\<lambda>r s. get_scene h r = Some s) refs ss)"
  by (cases "get_list h l") (simp_all add: scene_values_def those_map_eq_Some)

lemma break_values_iff:
  "break_values h l = Some bs \<longleftrightarrow>
     (\<exists>refs. get_list h l = Some refs \<and> list_all2 (\<lambda>r b. get_break h r = Some b) refs bs)"
  by (cases "get_list h l") (simp_all add: break_values_def those_map_eq_Some)

lemma clean_black_spaces_h_run:
  assumes refs: "get_list h blacks = Some refs"
    and vals: "list_all2 (\<lambda>r b. get_black h r = Some b) refs bs"
  shows "\<exists>kept. clean_black_spaces_h h blacks duration start end' =
                  Some (h @ [PyList kept], length h)
           \<and> subseq kept refs
           \<and> black_values (h @ [PyList kept]) (length h) =
               Some (clean_black_spaces bs duration start end')"
proof -
  let ?P = "\<lambda>b. black_start b > start \<and> black_end b < duration - end'"
  let ?ps = "filter (\<lambda>(r, b). ?P b) (zip refs bs)"
  let ?h' = "h @ [PyList (map fst ?ps)]"
  have len: "length refs = length bs" using vals by (rule list_all2_lengthD)
  have run: "clean_black_spaces_h h blacks duration start end' = Some (?h', length h)"
    using vals by (simp add: clean_black_spaces_h_def refs those_map_eq_Some [THEN iffD2] alloc_def)
  have "subseq (map fst ?ps) (map fst (zip refs bs))"
    by (intro subseq_map subseq_filter_left)
  then have shared: "subseq (map fst ?ps) refs" using len by simp
  have "\<forall>p \<in> set ?ps. get_black ?h' (fst p) = Some (snd p)"
    using vals by (auto simp: list_all2_iff get_black_iff lookup_append)
  then have "list_all2 (\<lambda>x y. get_black ?h' (fst x) = Some (snd y)) ?ps ?ps"
    unfolding list_all2_same .
  then have "list_all2 (\<lambda>r b. get_black ?h' r = Some b) (map fst ?ps) (map snd ?ps)"
    by (simp add: list_all2_map1 list_all2_map2)
  moreover have "map snd ?ps = filter ?P (map snd (zip refs bs))"
    by (simp add: filter_map comp_def case_prod_unfold)
  then have "map snd ?ps = clean_black_spaces bs duration start end'"
    using len by (simp add: clean_black_spaces_filter)
  moreover have "get_list ?h' (length h) = Some (map fst ?ps)"
    unfolding get_list_iff by (rule lookup_new)
  ultimately have "black_values ?h' (length h) = Some (clean_black_spaces bs duration start end')"
    unfolding black_values_iff by auto
  with run shared show ?thesis by blast
qed

lemma find_optimal_breaks_h_run:
  assumes brefs: "get_list h blacks = Some brefs"
    and bvals: "list_all2 (\<lambda>r b. get_black h r = Some b) brefs bs"
    and srefs: "get_list h scenes = Some srefs"
    and svals: "list_all2 (\<lambda>r s. get_scene h r = Some s) srefs ss"
  shows "\<exists>h' out. find_optimal_breaks_h h duration blacks silences scenes max_gap_minutes =
                    Some (h', out)
           \<and> prefix h h'
           \<and> fresh_breaks (length h) h' out
               (find_optimal_breaks duration bs sil ss max_gap_minutes)"
proof -
  define h1 where "h1 = h @ map BreakDict (seed_breaks bs)"
  define new where "new = [length h..<length h + length brefs]"
  define h2 where "h2 = h1 @ [PyList new]"
  define breaks where "breaks = length h1"
  have len: "length brefs = length (seed_breaks bs)"
    using bvals by (simp add: seed_breaks_def list_all2_lengthD)
  have s1: "seed_breaks_h h brefs = Some (h1, new)"
    unfolding h1_def new_def using bvals by (rule seed_breaks_h_run)
  have a2: "alloc h1 (PyList new) = (h2, breaks)"
    by (simp add: alloc_def h2_def breaks_def)
  have fb2: "fresh_breaks (length h) h2 breaks (seed_breaks bs)"
    unfolding h2_def breaks_def h1_def new_def len by (rule fresh_breaks_alloc)
  have frame2: "prefix h h2" by (simp add: h2_def h1_def)
  from fresh_breaks_sort [OF fb2] obtain refs' where
    s3': "sort_h h2 breaks = Some (h2[breaks := PyList refs'])"
    and fb3': "fresh_breaks (length h) (h2[breaks := PyList refs']) breaks (high_breaks bs)"
    unfolding high_breaks_def by blast
  define h3 where "h3 = h2[breaks := PyList refs']"
  have s3: "sort_h h2 breaks = Some h3" and fb3: "fresh_breaks (length h) h3 breaks (high_breaks bs)"
    using s3' fb3' by (simp_all add: h3_def)
  have frame3: "prefix h h3"
    unfolding h3_def using frame2 by (rule prefix_update) (simp add: breaks_def h1_def)
  have sorted_refs: "get_list h3 breaks = Some refs'"
    by (simp add: h3_def get_list_iff h2_def breaks_def lookup_new)
  define h4 where "h4 = h3 @ [PyList refs']"
  define filled where "filled = length h3"
  have a4: "alloc h3 (PyList refs') = (h4, filled)"
    by (simp add: alloc_def h4_def filled_def)
  have fb4: "fresh_breaks (length h) h4 filled (high_breaks bs)"
    unfolding h4_def filled_def using fb3 sorted_refs
    by (rule fresh_breaks_copy) (use frame3 in \<open>rule prefix_length_le\<close>)
  have frefs: "get_list h4 filled = Some refs'"
    unfolding get_list_iff h4_def filled_def by (rule lookup_new)
  have "list_all2 (\<lambda>r b. get_break h4 r = Some b) refs' (high_breaks bs)"
    using fb4 frefs unfolding fresh_breaks_def by auto
  then have bvals4: "those (map (get_break h4) refs') = Some (high_breaks bs)"
    by (simp add: those_map_eq_Some)
  have frame4: "prefix h h4" using frame3 by (simp add: h4_def)
  define gaps where "gaps = find_gaps duration (high_breaks bs) (max_gap_minutes * 60)"
  from fill_gaps_h_run [OF frame4 fb4 srefs svals, of gaps]
  obtain h5 where s5: "fill_gaps_h scenes filled h4 gaps = Some h5"
    and frame5: "prefix h h5"
    and fb5: "fresh_breaks (length h) h5 filled (foldl (fill_gap ss) (high_breaks bs) gaps)"
    by blast
  from fresh_breaks_sort [OF fb5] obtain refs6 where
    s6: "sort_h h5 filled = Some (h5[filled := PyList refs6])"
    and fb6: "fresh_breaks (length h) (h5[filled := PyList refs6]) filled
                (sort_key timestamp (foldl (fill_gap ss) (high_breaks bs) gaps))"
    by blast
  have "length h \<le> filled"
    unfolding filled_def using frame3 by (rule prefix_length_le)
  with frame5 have frame6: "prefix h (h5[filled := PyList refs6])"
    by (rule prefix_update)
  have pure: "find_optimal_breaks duration bs sil ss max_gap_minutes =
      sort_key timestamp (foldl (fill_gap ss) (high_breaks bs) gaps)"
    by (simp add: find_optimal_breaks_def Let_def gaps_def)
  have run: "find_optimal_breaks_h h duration blacks silences scenes max_gap_minutes =
      Some (h5[filled := PyList refs6], filled)"
    unfolding find_optimal_breaks_h_def
    by (simp add: brefs s1 a2 s3 sorted_refs a4 frefs bvals4 s5 [unfolded gaps_def] s6 Let_def)
  show ?thesis
    using run frame6 fb6 unfolding pure by blast
qed

section \<open>Neither function writes to its arguments\<close>

text \<open>
  Claim C10. On the store model, when \<open>blacks\<close> refers to a list of black-interval dicts:
  the Cleaner returns the store it was given followed by one new list object, whose
  address it returns and whose elements are references of the input list, in order (the
  same dicts, not copies). When moreover \<open>scenes\<close> refers to a list of scene dicts, the
  Selector returns a store that is the one it was given followed by new objects, so every
  object that existed at the call (the three argument lists and each dict in them) is
  unchanged; the address it returns is new, every element of the returned list is a new
  break dict, and the values of these dicts are the break list of the Selector on values.
  Neither call fails on such arguments.
\<close>

theorem arguments_not_mutated:
  assumes "black_values h blacks = Some bs"
  shows "(\<exists>kept brefs. get_list h blacks = Some brefs
            \<and> clean_black_spaces_h h blacks duration start end' =
                Some (h @ [PyList kept], length h)
            \<and> subseq kept brefs
            \<and> black_values (h @ [PyList kept]) (length h) =
                Some (clean_black_spaces bs duration start end'))
         \<and> (scene_values h scenes = Some ss \<longrightarrow>
              (\<exists>h' out refs.
                 find_optimal_breaks_h h duration blacks silences scenes max_gap_minutes =
                   Some (h', out)
                 \<and> prefix h h'
                 \<and> (\<forall>a. a < length h \<longrightarrow> lookup h' a = lookup h a)
                 \<and> length h \<le> out
                 \<and> get_list h' out = Some refs
                 \<and> list_all (\<lambda>r. length h \<le> r) refs
                 \<and> break_values h' out =
                     Some (find_optimal_breaks duration bs sil ss max_gap_minutes)))"
proof -
  from assms obtain brefs where brefs: "get_list h blacks = Some brefs"
    and bvals: "list_all2 (\<lambda>r b. get_black h r = Some b) brefs bs"
    unfolding black_values_iff by blast
  have cleaner: "\<exists>kept brefs. get_list h blacks = Some brefs
            \<and> clean_black_spaces_h h blacks duration start end' =
                Some (h @ [PyList kept], length h)
            \<and> subseq kept brefs
            \<and> black_values (h @ [PyList kept]) (length h) =
                Some (clean_black_spaces bs duration start end')"
    using clean_black_spaces_h_run [OF brefs bvals, of duration start end'] brefs by blast
  have selector: "\<exists>h' out refs.
                 find_optimal_breaks_h h duration blacks silences scenes max_gap_minutes =
                   Some (h', out)
                 \<and> prefix h h'
                 \<and> (\<forall>a. a < length h \<longrightarrow> lookup h' a = lookup h a)
                 \<and> length h \<le> out
                 \<and> get_list h' out = Some refs
                 \<and> list_all (\<lambda>r. length h \<le> r) refs
                 \<and> break_values h' out =
                     Some (find_optimal_breaks duration bs sil ss max_gap_minutes)"
    if "scene_values h scenes = Some ss"
  proof -
    from that obtain srefs where srefs: "get_list h scenes = Some srefs"
      and svals: "list_all2 (\<lambda>r s. get_scene h r = Some s) srefs ss"
      unfolding scene_values_iff by blast
    from find_optimal_breaks_h_run [OF brefs bvals srefs svals,
        of duration silences max_gap_minutes sil]
    obtain h' out where
      run: "find_optimal_breaks_h h duration blacks silences scenes max_gap_minutes = Some (h', out)"
      and frame: "prefix h h'"
      and fb: "fresh_breaks (length h) h' out
                 (find_optimal_breaks duration bs sil ss max_gap_minutes)"
      by blast
    from fb obtain refs where refs: "get_list h' out = Some refs"
      and vals: "list_all2 (\<lambda>r b. get_break h' r = Some b) refs
                   (find_optimal_breaks duration bs sil ss max_gap_minutes)"
      and fresh: "length h \<le> out" "list_all (\<lambda>r. length h \<le> r) refs"
      unfolding fresh_breaks_def by blast
    have same: "lookup h' a = lookup h a" if "a < length h" for a
    proof -
      from that have "lookup h a = Some (h ! a)" by (simp add: lookup_def)
      with frame show ?thesis by (simp add: prefix_lookup)
    qed
    have "break_values h' out = Some (find_optimal_breaks duration bs sil ss max_gap_minutes)"
      unfolding break_values_iff using refs vals by blast
    with run frame same refs fresh show ?thesis by blast
  qed
  from cleaner selector show ?thesis by blast
qed

theorem arguments_not_mutated_witness:
  "black_values
     [BlackDict \<lparr>black_start = 999, black_end = 1001, black_center = 1000\<rparr>,
      BlackDict \<lparr>black_start = 99, black_end = 101, black_center = 100\<rparr>,
      PyList [0, 1],
      SceneDict \<lparr>scene_timestamp = 500\<rparr>,
      PyList [3],
      PyList []] 2 =
     Some [\<lparr>black_start = 999, black_end = 1001, black_center = 1000\<rparr>,
           \<lparr>black_start = 99, black_end = 101, black_center = 100\<rparr>]
   \<and> scene_values
     [BlackDict \<lparr>black_start = 999, black_end = 1001, black_center = 1000\<rparr>,
      BlackDict \<lparr>black_start = 99, black_end = 101, black_center = 100\<rparr>,
      PyList [0, 1],
      SceneDict \<lparr>scene_timestamp = 500\<rparr>,
      PyList [3],
      PyList []] 4 = Some [\<lparr>scene_timestamp = 500\<rparr>]
   \<and> clean_black_spaces_h
     [BlackDict \<lparr>black_start = 999, black_end = 1001, black_center = 1000\<rparr>,
      BlackDict \<lparr>black_start = 99, black_end = 101, black_center = 100\<rparr>,
      PyList [0, 1],
      SceneDict \<lparr>scene_timestamp = 500\<rparr>,
      PyList [3],
      PyList []] 2 3600 20 10 =
     Some ([BlackDict \<lparr>black_start = 999, black_end = 1001, black_center = 1000\<rparr>,
      BlackDict \<lparr>black_start = 99, black_end = 101, black_center = 100\<rparr>,
      PyList [0, 1],
      SceneDict \<lparr>scene_timestamp = 500\<rparr>,
      PyList [3],
      PyList []] @ [PyList [0, 1]], 6)
   \<and> find_optimal_breaks_h
     [BlackDict \<lparr>black_start = 999, black_end = 1001, black_center = 1000\<rparr>,
      BlackDict \<lparr>black_start = 99, black_end = 101, black_center = 100\<rparr>,
      PyList [0, 1],
      SceneDict \<lparr>scene_timestamp = 500\<rparr>,
      PyList [3],
      PyList []] 3600 2 5 4 12 =
     Some ([BlackDict \<lparr>black_start = 999, black_end = 1001, black_center = 1000\<rparr>,
      BlackDict \<lparr>black_start = 99, black_end = 101, black_center = 100\<rparr>,
      PyList [0, 1],
      SceneDict \<lparr>scene_timestamp = 500\<rparr>,
      PyList [3],
      PyList []] @
     [BreakDict \<lparr>timestamp = 1000, type = Black, confidence = High\<rparr>,
      BreakDict \<lparr>timestamp = 100, type = Black, confidence = High\<rparr>,
      PyList [7, 6],
      PyList [7, 10, 6],
      BreakDict \<lparr>timestamp = 500, type = Scene, confidence = Medium\<rparr>], 9)"
  using arguments_not_mutated
    [of "[BlackDict \<lparr>black_start = 999, black_end = 1001, black_center = 1000\<rparr>,
      BlackDict \<lparr>black_start = 99, black_end = 101, black_center = 100\<rparr>,
      PyList [0, 1],
      SceneDict \<lparr>scene_timestamp = 500\<rparr>,
      PyList [3],
      PyList []]" 2
        "[\<lparr>black_start = 999, black_end = 1001, black_center = 1000\<rparr>,
          \<lparr>black_start = 99, black_end = 101, black_center = 100\<rparr>]"
        3600 20 10 4 "[\<lparr>scene_timestamp = 500\<rparr>]" 5 12 "[]"]
  by (simp add: black_values_def scene_values_def get_list_def get_black_def get_scene_def
      get_break_def lookup_def clean_black_spaces_h_def find_optimal_breaks_h_def alloc_def
      sort_h_def fill_gap_h_def candidates_def py_min_def find_gaps_def)

end
